theory Spec2Isabelle
  imports Main
begin

section \<open>Python strings\<close>

text \<open>
  A Python \<open>str\<close> is the list of its Unicode code points; \<open>len\<close> counts code points.
  The scripts process Spanish text. The functions of this section and of the next are the
  library functions of Python 3 (3.10 or later, which the annotations of the scripts
  require) on the repertoire \<open>repertoire\<close> below: the code points U+0000 to U+00FF and
  U+2019 (RIGHT SINGLE QUOTATION MARK). The white-space table is complete; the tables of
  lower case and of word characters are those of the Unicode database on U+0000 to U+00FF,
  and U+2019 has no case, is no white space and no word character. Outside the repertoire
  the library does more than these definitions: \<open>str.lower\<close> also maps capital letters above
  U+00FF, \<open>unicodedata.normalize\<close> composes a letter with a combining mark (U+0300 and
  above) that follows it, \<open>\w\<close> also matches the letters and digits above U+00FF, and
  \<open>re.IGNORECASE\<close> also folds U+017F with \<open>s\<close>, U+0131 with \<open>i\<close> and U+212A with \<open>k\<close>. What is
  proved below of all strings is proved of these definitions; it is a statement about the
  scripts for texts of the repertoire, which the normalizing functions do not leave
  (section \<open>The repertoire is closed\<close>).
\<close>

type_synonym cp = nat
type_synonym pystr = "cp list"

definition str :: "string \<Rightarrow> pystr" where
  "str s = map of_char s"

definition repertoire :: "cp \<Rightarrow> bool" where
  "repertoire c \<longleftrightarrow> c \<le> 255 \<or> c = 8217"

definition in_repertoire :: "pystr \<Rightarrow> bool" where
  "in_repertoire s = list_all repertoire s"

definition py_isspace :: "cp \<Rightarrow> bool" where
  "py_isspace c =
     ((9 \<le> c \<and> c \<le> 13) \<or> (28 \<le> c \<and> c \<le> 32) \<or> c = 133 \<or> c = 160 \<or> c = 5760 \<or>
      (8192 \<le> c \<and> c \<le> 8202) \<or> c = 8232 \<or> c = 8233 \<or> c = 8239 \<or> c = 8287 \<or> c = 12288)"

text \<open>
  \<open>str.lower\<close> on one code point of the repertoire: the capital letters U+0041 to U+005A and
  U+00C0 to U+00DE (but not U+00D7, the multiplication sign) move up by 32. Capital letters
  above U+00FF, which \<open>str.lower\<close> maps as well, are outside the repertoire and left as
  they are.
\<close>

definition py_lower_cp :: "cp \<Rightarrow> cp" where
  "py_lower_cp c =
     (if (65 \<le> c \<and> c \<le> 90) \<or> (192 \<le> c \<and> c \<le> 222 \<and> c \<noteq> 215) then c + 32 else c)"

definition py_lower :: "pystr \<Rightarrow> pystr" where
  "py_lower s = map py_lower_cp s"

definition py_lstrip :: "pystr \<Rightarrow> pystr" where
  "py_lstrip s = dropWhile py_isspace s"

definition py_rstrip :: "pystr \<Rightarrow> pystr" where
  "py_rstrip s = rev (dropWhile py_isspace (rev s))"

definition py_strip :: "pystr \<Rightarrow> pystr" where
  "py_strip s = py_rstrip (py_lstrip s)"

text \<open>
  \<open>unicodedata.normalize('NFC', text)\<close>: the identity on the repertoire, all of whose
  strings are in normal form C (no code point below U+0300 combines with the one before
  it, and U+2019 does not either). A string with a combining mark, U+0300 or above, is
  outside the repertoire: there the library composes and this definition does not.
\<close>

definition nfc :: "pystr \<Rightarrow> pystr" where
  "nfc s = s"

text \<open>
  \<open>text.replace(old, new)\<close>, left to right over non-overlapping occurrences. The scripts
  call it with a non-empty \<open>old\<close> only.
\<close>

fun py_replace :: "pystr \<Rightarrow> pystr \<Rightarrow> pystr \<Rightarrow> pystr" where
  "py_replace old new [] = []"
| "py_replace old new (c # cs) =
     (if old \<noteq> [] \<and> take (length old) (c # cs) = old
      then new @ py_replace old new (drop (length old) (c # cs))
      else c # py_replace old new cs)"

text \<open>\<open>s.rstrip("'")\<close>: every trailing apostrophe goes.\<close>

definition rstrip_apostrophe :: "pystr \<Rightarrow> pystr" where
  "rstrip_apostrophe s = rev (dropWhile (\<lambda>c. c = 39) (rev s))"

text \<open>\<open>s.split()\<close>: the maximal runs of characters that are no white space.\<close>

fun py_split_from :: "pystr \<Rightarrow> pystr \<Rightarrow> pystr list" where
  "py_split_from cur [] = (if cur = [] then [] else [cur])"
| "py_split_from cur (c # cs) =
     (if py_isspace c
      then (if cur = [] then py_split_from [] cs else cur # py_split_from [] cs)
      else py_split_from (cur @ [c]) cs)"

definition py_split :: "pystr \<Rightarrow> pystr list" where
  "py_split s = py_split_from [] s"

section \<open>The regular expressions the scripts build\<close>

datatype error = ReError | IndexError | ValueError

text \<open>
  \<open>re.escape\<close> (Python 3.7 and later) puts a backslash before each of
  \<open>( ) [ ] { } ? * + - | ^ $ \ . & ~ #\<close>, the space and the tab, line feed, carriage return,
  vertical tab and form feed, and before nothing else.
\<close>

definition re_special :: "cp \<Rightarrow> bool" where
  "re_special c \<longleftrightarrow>
     c \<in> set [40, 41, 91, 93, 123, 125, 63, 42, 43, 45, 124, 94, 36, 92, 46, 38, 126, 35,
               32, 9, 10, 13, 11, 12]"

definition re_escape :: "pystr \<Rightarrow> pystr" where
  "re_escape s = concat (map (\<lambda>c. if re_special c then [92, c] else [c]) s)"

text \<open>
  \<open>\w\<close> of a \<open>str\<close> pattern on the repertoire: the alphanumeric characters and the
  underscore. The letters and digits above U+00FF, which \<open>\w\<close> matches too, are outside
  the repertoire and count as no word character here.
\<close>

definition is_word :: "cp \<Rightarrow> bool" where
  "is_word c =
     ((48 \<le> c \<and> c \<le> 57) \<or> (65 \<le> c \<and> c \<le> 90) \<or> c = 95 \<or> (97 \<le> c \<and> c \<le> 122) \<or>
      c = 170 \<or> c = 178 \<or> c = 179 \<or> c = 181 \<or> c = 185 \<or> c = 186 \<or>
      (188 \<le> c \<and> c \<le> 190) \<or> (192 \<le> c \<and> c \<le> 214) \<or> (216 \<le> c \<and> c \<le> 246) \<or>
      (248 \<le> c \<and> c \<le> 255))"

text \<open>
  The pattern handed to \<open>re.search\<close> is \<open>(?:^|[^\w])\<close>, then the escaped phrase after its
  two replacements, then \<open>(?:$|[^\w])\<close>. The middle part is read as the compiler of \<open>re\<close>
  reads it, for the fragment the scripts can produce: a character that is no
  metacharacter, a backslash before a character that is no ASCII letter or digit, and
  \<open>?\<close> or \<open>??\<close> after either. Everything else is refused with \<open>ReError\<close>, which covers
  every pattern \<open>re\<close> itself refuses in that position.
\<close>

datatype re_tok = TLit cp | TQuest

definition re_meta :: "cp \<Rightarrow> bool" where
  "re_meta c \<longleftrightarrow> c \<in> set [46, 94, 36, 42, 43, 63, 123, 125, 91, 93, 92, 124, 40, 41]"

definition ascii_alnum :: "cp \<Rightarrow> bool" where
  "ascii_alnum c = ((48 \<le> c \<and> c \<le> 57) \<or> (65 \<le> c \<and> c \<le> 90) \<or> (97 \<le> c \<and> c \<le> 122))"

definition cons_ok :: "'a \<Rightarrow> error + 'a list \<Rightarrow> error + 'a list" where
  "cons_ok x r = (case r of Inl e \<Rightarrow> Inl e | Inr xs \<Rightarrow> Inr (x # xs))"

fun re_lex :: "pystr \<Rightarrow> error + re_tok list" where
  "re_lex [] = Inr []"
| "re_lex [c] =
     (if c = 63 then Inr [TQuest] else if re_meta c then Inl ReError else Inr [TLit c])"
| "re_lex (c # d # ds) =
     (if c = 92 then (if ascii_alnum d then Inl ReError else cons_ok (TLit d) (re_lex ds))
      else if c = 63 then cons_ok TQuest (re_lex (d # ds))
      else if re_meta c then Inl ReError
      else cons_ok (TLit c) (re_lex (d # ds)))"

datatype re_item = Lit cp | Opt cp

fun re_items :: "re_tok list \<Rightarrow> error + re_item list" where
  "re_items [] = Inr []"
| "re_items (TQuest # ts) = Inl ReError"
| "re_items (TLit c # TQuest # TQuest # ts) = cons_ok (Opt c) (re_items ts)"
| "re_items (TLit c # TQuest # ts) = cons_ok (Opt c) (re_items ts)"
| "re_items (TLit c # ts) = cons_ok (Lit c) (re_items ts)"

definition re_compile :: "pystr \<Rightarrow> error + re_item list" where
  "re_compile p = (case re_lex p of Inl e \<Rightarrow> Inl e | Inr ts \<Rightarrow> re_items ts)"

text \<open>
  Under \<open>re.IGNORECASE\<close> a literal matches a character with the same lower case; on the
  repertoire that is all it matches (the characters the library folds in addition, such as
  U+017F with \<open>s\<close> and U+0131 with \<open>i\<close>, are outside it).
  \<open>match_here\<close> matches the items and then \<open>(?:$|[^\w])\<close>: the end, or a character that is
  no word character (a line feed before the end is one). An optional item is tried both
  ways, so greedy \<open>?\<close> and lazy \<open>??\<close> accept the same texts.
\<close>

definition ci_eq :: "cp \<Rightarrow> cp \<Rightarrow> bool" where
  "ci_eq c d = (py_lower_cp c = py_lower_cp d)"

fun match_here :: "re_item list \<Rightarrow> pystr \<Rightarrow> bool" where
  "match_here [] t = (case t of [] \<Rightarrow> True | d # ds \<Rightarrow> \<not> is_word d)"
| "match_here (Lit c # its) t =
     (case t of [] \<Rightarrow> False | d # ds \<Rightarrow> ci_eq c d \<and> match_here its ds)"
| "match_here (Opt c # its) t =
     ((case t of [] \<Rightarrow> False | d # ds \<Rightarrow> ci_eq c d \<and> match_here its ds) \<or> match_here its t)"

text \<open>
  \<open>(?:^|[^\w])\<close> at a start other than the first: one character that is no word character.
\<close>

fun search_after :: "re_item list \<Rightarrow> pystr \<Rightarrow> bool" where
  "search_after its [] = False"
| "search_after its (c # cs) = ((\<not> is_word c \<and> match_here its cs) \<or> search_after its cs)"

definition re_search_bounded :: "pystr \<Rightarrow> pystr \<Rightarrow> error + bool" where
  "re_search_bounded escaped text =
     (case re_compile escaped of
        Inl e \<Rightarrow> Inl e
      | Inr its \<Rightarrow> Inr (match_here its text \<or> search_after its text))"

section \<open>The locator of \<open>backfill_phrase_slang_occurrences.py\<close>\<close>

definition normalize_text :: "pystr \<Rightarrow> pystr" where
  "normalize_text text = nfc (py_strip (py_lower text))"

text \<open>
  Both calls of \<open>replace\<close> in the source remove the ASCII apostrophe U+0027; the
  character class of \<open>re.sub\<close> is \<open>\<questiondown> \<exclamdown> . , ! ? ; :\<close>.
\<close>

definition punctuation :: "cp \<Rightarrow> bool" where
  "punctuation c \<longleftrightarrow> c \<in> set [191, 161, 46, 44, 33, 63, 59, 58]"

definition normalize_for_search :: "pystr \<Rightarrow> pystr" where
  "normalize_for_search text =
     (let text1 = normalize_text text;
          text2 = py_replace [39] [] (py_replace [39] [] text1)
      in filter (\<lambda>c. \<not> punctuation c) text2)"

definition phrase_exists_in_line :: "pystr \<Rightarrow> pystr \<Rightarrow> error + bool" where
  "phrase_exists_in_line line_text phrase_text =
     (let line_lower = normalize_text line_text;
          phrase_lower = normalize_text phrase_text;
          escaped_phrase = re_escape phrase_lower;
          escaped_phrase1 = py_replace [92, 39] [39, 63] escaped_phrase;
          escaped_phrase2 = py_replace [39] [39, 63] escaped_phrase1
      in re_search_bounded escaped_phrase2 line_lower)"

record line_word =
  word_text :: pystr
  word_position :: int

record norm_word =
  norm :: pystr
  original :: pystr
  position :: int

definition normalized :: "line_word \<Rightarrow> norm_word" where
  "normalized w =
     \<lparr>norm = normalize_for_search (word_text w), original = py_lower (word_text w),
      position = word_position w\<rparr>"

text \<open>The loop of the short single word: the first token whose \<open>norm\<close> is the target.\<close>

fun scan_exact :: "pystr \<Rightarrow> norm_word list \<Rightarrow> (int \<times> int) option" where
  "scan_exact target [] = None"
| "scan_exact target (w # ws) =
     (if norm w = target then Some (position w, position w) else scan_exact target ws)"

text \<open>The loop of the longer single word, with its two tests in the order of the source.\<close>

fun scan_contraction :: "pystr \<Rightarrow> norm_word list \<Rightarrow> (int \<times> int) option" where
  "scan_contraction target [] = None"
| "scan_contraction target (w # ws) =
     (if norm w = target then Some (position w, position w)
      else if rstrip_apostrophe target = norm w \<or> rstrip_apostrophe (norm w) = target
      then Some (position w, position w)
      else scan_contraction target ws)"

text \<open>
  The inner loop over \<open>enumerate(phrase_words)\<close> at window start \<open>i\<close>: it returns the
  flag \<open>match\<close> and the list \<open>positions\<close> as they stand when the loop ends or breaks.
  \<open>normalized_words[i + j]\<close> raises \<open>IndexError\<close> out of range.
\<close>

fun match_words ::
  "norm_word list \<Rightarrow> nat \<Rightarrow> pystr list \<Rightarrow> nat \<Rightarrow> int list \<Rightarrow> error + bool \<times> int list" where
  "match_words nws i [] j positions = Inr (True, positions)"
| "match_words nws i (phrase_word # rest) j positions =
     (if i + j < length nws then
        (let line_word = norm (nws ! (i + j)) in
         if length phrase_word < 3 then
           (if line_word \<noteq> phrase_word then Inr (False, positions)
            else match_words nws i rest (j + 1) (positions @ [position (nws ! (i + j))]))
         else
           (if \<not> (line_word = phrase_word \<or> rstrip_apostrophe phrase_word = line_word \<or>
                   rstrip_apostrophe line_word = phrase_word)
            then Inr (False, positions)
            else match_words nws i rest (j + 1) (positions @ [position (nws ! (i + j))])))
      else Inl IndexError)"

text \<open>\<open>min\<close> and \<open>max\<close> of a list raise \<open>ValueError\<close> on the empty list.\<close>

definition py_min :: "int list \<Rightarrow> error + int" where
  "py_min xs = (case xs of [] \<Rightarrow> Inl ValueError | x # ys \<Rightarrow> Inr (fold min ys x))"

definition py_max :: "int list \<Rightarrow> error + int" where
  "py_max xs = (case xs of [] \<Rightarrow> Inl ValueError | x # ys \<Rightarrow> Inr (fold max ys x))"

definition span_of :: "int list \<Rightarrow> error + (int \<times> int) option" where
  "span_of positions =
     (case py_min positions of
        Inl e \<Rightarrow> Inl e
      | Inr lo \<Rightarrow> (case py_max positions of Inl e \<Rightarrow> Inl e | Inr hi \<Rightarrow> Inr (Some (lo, hi))))"

text \<open>The outer loop \<open>for i in range(len(normalized_words))\<close>, from \<open>i\<close> on.\<close>

function scan_windows ::
  "norm_word list \<Rightarrow> pystr list \<Rightarrow> nat \<Rightarrow> error + (int \<times> int) option" where
  "scan_windows nws phrase_words i =
     (if i < length nws then
        (if i + length phrase_words > length nws then Inr None
         else
           (case match_words nws i phrase_words 0 [] of
              Inl e \<Rightarrow> Inl e
            | Inr (match, positions) \<Rightarrow>
                if match \<and> length positions = length phrase_words then span_of positions
                else scan_windows nws phrase_words (Suc i)))
      else Inr None)"
  by pat_completeness auto
termination
  by (relation "measure (\<lambda>(nws, phrase_words, i). length nws - i)") auto

definition find_phrase_positions ::
  "pystr \<Rightarrow> pystr \<Rightarrow> line_word list \<Rightarrow> error + (int \<times> int) option" where
  "find_phrase_positions line_text phrase_text line_words =
     (if line_words = [] then Inr None
      else
        (let phrase_lower = normalize_for_search phrase_text;
             phrase_words = py_split phrase_lower
         in if phrase_words = [] then Inr None
            else
              (let normalized_words = map normalized line_words
               in if length phrase_words = 1 then
                    (let target = hd phrase_words
                     in if length target < 3 then Inr (scan_exact target normalized_words)
                        else
                          (case phrase_exists_in_line line_text phrase_text of
                             Inl e \<Rightarrow> Inl e
                           | Inr found \<Rightarrow>
                               if \<not> found then Inr None
                               else Inr (scan_contraction target normalized_words)))
                  else
                    (case phrase_exists_in_line line_text phrase_text of
                       Inl e \<Rightarrow> Inl e
                     | Inr found \<Rightarrow>
                         if \<not> found then Inr None
                         else scan_windows normalized_words phrase_words 0))))"

section \<open>The locator of \<open>import_lyrics.py\<close>\<close>

text \<open>
  The second copy, translated on its own from lines 1780 to 1886 of \<open>import_lyrics.py\<close>.
  Its dictionaries of normalized words have no \<open>original\<close> entry.
\<close>

definition normalize_text_for_match :: "pystr \<Rightarrow> pystr" where
  "normalize_text_for_match text = nfc (py_strip (py_lower text))"

definition normalize_for_search_lyrics :: "pystr \<Rightarrow> pystr" where
  "normalize_for_search_lyrics text =
     (let text1 = normalize_text_for_match text;
          text2 = py_replace [39] [] (py_replace [39] [] text1)
      in filter (\<lambda>c. \<not> punctuation c) text2)"

definition phrase_exists_in_line_lyrics :: "pystr \<Rightarrow> pystr \<Rightarrow> error + bool" where
  "phrase_exists_in_line_lyrics line_text phrase_text =
     (let line_lower = normalize_text_for_match line_text;
          phrase_lower = normalize_text_for_match phrase_text;
          escaped_phrase = re_escape phrase_lower;
          escaped_phrase1 = py_replace [92, 39] [39, 63] escaped_phrase;
          escaped_phrase2 = py_replace [39] [39, 63] escaped_phrase1
      in re_search_bounded escaped_phrase2 line_lower)"

record norm_word_lyrics =
  norm_l :: pystr
  position_l :: int

definition normalized_lyrics :: "line_word \<Rightarrow> norm_word_lyrics" where
  "normalized_lyrics w =
     \<lparr>norm_l = normalize_for_search_lyrics (word_text w), position_l = word_position w\<rparr>"

fun scan_exact_lyrics :: "pystr \<Rightarrow> norm_word_lyrics list \<Rightarrow> (int \<times> int) option" where
  "scan_exact_lyrics target [] = None"
| "scan_exact_lyrics target (w # ws) =
     (if norm_l w = target then Some (position_l w, position_l w)
      else scan_exact_lyrics target ws)"

fun scan_contraction_lyrics :: "pystr \<Rightarrow> norm_word_lyrics list \<Rightarrow> (int \<times> int) option" where
  "scan_contraction_lyrics target [] = None"
| "scan_contraction_lyrics target (w # ws) =
     (if norm_l w = target then Some (position_l w, position_l w)
      else if rstrip_apostrophe target = norm_l w \<or> rstrip_apostrophe (norm_l w) = target
      then Some (position_l w, position_l w)
      else scan_contraction_lyrics target ws)"

fun match_words_lyrics ::
  "norm_word_lyrics list \<Rightarrow> nat \<Rightarrow> pystr list \<Rightarrow> nat \<Rightarrow> int list \<Rightarrow> error + bool \<times> int list"
where
  "match_words_lyrics nws i [] j positions = Inr (True, positions)"
| "match_words_lyrics nws i (phrase_word # rest) j positions =
     (if i + j < length nws then
        (let line_word = norm_l (nws ! (i + j)) in
         if length phrase_word < 3 then
           (if line_word \<noteq> phrase_word then Inr (False, positions)
            else match_words_lyrics nws i rest (j + 1)
                   (positions @ [position_l (nws ! (i + j))]))
         else
           (if \<not> (line_word = phrase_word \<or> rstrip_apostrophe phrase_word = line_word \<or>
                   rstrip_apostrophe line_word = phrase_word)
            then Inr (False, positions)
            else match_words_lyrics nws i rest (j + 1)
                   (positions @ [position_l (nws ! (i + j))])))
      else Inl IndexError)"

function scan_windows_lyrics ::
  "norm_word_lyrics list \<Rightarrow> pystr list \<Rightarrow> nat \<Rightarrow> error + (int \<times> int) option" where
  "scan_windows_lyrics nws phrase_words i =
     (if i < length nws then
        (if i + length phrase_words > length nws then Inr None
         else
           (case match_words_lyrics nws i phrase_words 0 [] of
              Inl e \<Rightarrow> Inl e
            | Inr (match, positions) \<Rightarrow>
                if match \<and> length positions = length phrase_words then span_of positions
                else scan_windows_lyrics nws phrase_words (Suc i)))
      else Inr None)"
  by pat_completeness auto
termination
  by (relation "measure (\<lambda>(nws, phrase_words, i). length nws - i)") auto

definition find_phrase_positions_lyrics ::
  "pystr \<Rightarrow> pystr \<Rightarrow> line_word list \<Rightarrow> error + (int \<times> int) option" where
  "find_phrase_positions_lyrics line_text phrase_text line_words =
     (if line_words = [] then Inr None
      else
        (let phrase_lower = normalize_for_search_lyrics phrase_text;
             phrase_words = py_split phrase_lower
         in if phrase_words = [] then Inr None
            else
              (let normalized_words = map normalized_lyrics line_words
               in if length phrase_words = 1 then
                    (let target = hd phrase_words
                     in if length target < 3
                        then Inr (scan_exact_lyrics target normalized_words)
                        else
                          (case phrase_exists_in_line_lyrics line_text phrase_text of
                             Inl e \<Rightarrow> Inl e
                           | Inr found \<Rightarrow>
                               if \<not> found then Inr None
                               else Inr (scan_contraction_lyrics target normalized_words)))
                  else
                    (case phrase_exists_in_line_lyrics line_text phrase_text of
                       Inl e \<Rightarrow> Inl e
                     | Inr found \<Rightarrow>
                         if \<not> found then Inr None
                         else scan_windows_lyrics normalized_words phrase_words 0))))"

section \<open>The line loops that call the locator\<close>






section \<open>Notions the statements use\<close>

text \<open>A token list as the callers build it, from pairs of text and position.\<close>

definition tokens :: "(pystr \<times> int) list \<Rightarrow> line_word list" where
  "tokens ps = map (\<lambda>(t, p). \<lparr>word_text = t, word_position = p\<rparr>) ps"

text \<open>The words of the expression as \<open>find_phrase_positions\<close> computes them.\<close>

definition phrase_words_of :: "pystr \<Rightarrow> pystr list" where
  "phrase_words_of phrase_text = py_split (normalize_for_search phrase_text)"

text \<open>
  One word of the expression against the normalized text of one token, as the inner loop
  tests it: equality only for a word shorter than 3, equality or equality after stripping
  trailing apostrophes otherwise.
\<close>

definition word_ok :: "pystr \<Rightarrow> pystr \<Rightarrow> bool" where
  "word_ok phrase_word line_word =
     (if length phrase_word < 3 then line_word = phrase_word
      else (line_word = phrase_word \<or> rstrip_apostrophe phrase_word = line_word \<or>
            rstrip_apostrophe line_word = phrase_word))"

text \<open>The window of \<open>length pws\<close> tokens that starts at index \<open>i\<close>, and whether it matches.\<close>

definition window :: "line_word list \<Rightarrow> nat \<Rightarrow> nat \<Rightarrow> line_word list" where
  "window lws n i = take n (drop i lws)"

definition window_ok :: "line_word list \<Rightarrow> pystr list \<Rightarrow> nat \<Rightarrow> bool" where
  "window_ok lws pws i =
     (i + length pws \<le> length lws \<and>
      list_all2 word_ok pws (map (\<lambda>w. normalize_for_search (word_text w)) (window lws (length pws) i)))"

definition window_span :: "line_word list \<Rightarrow> nat \<Rightarrow> nat \<Rightarrow> int \<times> int" where
  "window_span lws n i =
     (Min (set (map word_position (window lws n i))), Max (set (map word_position (window lws n i))))"

text \<open>
  The items the compiled pattern of \<open>phrase_exists_in_line\<close> consists of, read off the
  lower-cased phrase: an apostrophe is optional, a backslash right before an apostrophe is
  lost in the first replacement, every other character stands for itself.
\<close>

fun pattern_items :: "pystr \<Rightarrow> re_item list" where
  "pattern_items [] = []"
| "pattern_items [c] = (if c = 39 then [Opt 39] else [Lit c])"
| "pattern_items (c # d # ds) =
     (if c = 92 \<and> d = 39 then Opt 39 # pattern_items ds
      else if c = 39 then Opt 39 # pattern_items (d # ds)
      else Lit c # pattern_items (d # ds))"

text \<open>
  The locator with equality of normalized words as its only test at the token level.
\<close>

fun match_words_exact ::
  "norm_word list \<Rightarrow> nat \<Rightarrow> pystr list \<Rightarrow> nat \<Rightarrow> int list \<Rightarrow> error + bool \<times> int list" where
  "match_words_exact nws i [] j positions = Inr (True, positions)"
| "match_words_exact nws i (phrase_word # rest) j positions =
     (if i + j < length nws then
        (if norm (nws ! (i + j)) \<noteq> phrase_word then Inr (False, positions)
         else match_words_exact nws i rest (j + 1) (positions @ [position (nws ! (i + j))]))
      else Inl IndexError)"

function scan_windows_exact ::
  "norm_word list \<Rightarrow> pystr list \<Rightarrow> nat \<Rightarrow> error + (int \<times> int) option" where
  "scan_windows_exact nws phrase_words i =
     (if i < length nws then
        (if i + length phrase_words > length nws then Inr None
         else
           (case match_words_exact nws i phrase_words 0 [] of
              Inl e \<Rightarrow> Inl e
            | Inr (match, positions) \<Rightarrow>
                if match \<and> length positions = length phrase_words then span_of positions
                else scan_windows_exact nws phrase_words (Suc i)))
      else Inr None)"
  by pat_completeness auto
termination
  by (relation "measure (\<lambda>(nws, phrase_words, i). length nws - i)") auto

definition find_phrase_positions_exact ::
  "pystr \<Rightarrow> pystr \<Rightarrow> line_word list \<Rightarrow> error + (int \<times> int) option" where
  "find_phrase_positions_exact line_text phrase_text line_words =
     (if line_words = [] then Inr None
      else
        (let phrase_words = py_split (normalize_for_search phrase_text)
         in if phrase_words = [] then Inr None
            else
              (let normalized_words = map normalized line_words
               in if length phrase_words = 1 then
                    (let target = hd phrase_words
                     in if length target < 3 then Inr (scan_exact target normalized_words)
                        else
                          (case phrase_exists_in_line line_text phrase_text of
                             Inl e \<Rightarrow> Inl e
                           | Inr found \<Rightarrow>
                               if \<not> found then Inr None
                               else Inr (scan_exact target normalized_words)))
                  else
                    (case phrase_exists_in_line line_text phrase_text of
                       Inl e \<Rightarrow> Inl e
                     | Inr found \<Rightarrow>
                         if \<not> found then Inr None
                         else scan_windows_exact normalized_words phrase_words 0))))"

text \<open>
  The middle part of the pattern as \<open>phrase_exists_in_line\<close> builds it from the lower-cased
  phrase, and the patterns that do not begin with a question mark.
\<close>

definition pattern_source :: "pystr \<Rightarrow> pystr" where
  "pattern_source p = py_replace [39] [39, 63] (py_replace [92, 39] [39, 63] (re_escape p))"

definition no_quest :: "pystr \<Rightarrow> bool" where
  "no_quest s \<longleftrightarrow> (case s of [] \<Rightarrow> True | c # _ \<Rightarrow> c \<noteq> 63)"

definition coarse_found :: "pystr \<Rightarrow> pystr \<Rightarrow> bool" where
  "coarse_found line_text phrase_text =
     (match_here (pattern_items (normalize_text phrase_text)) (normalize_text line_text) \<or>
      search_after (pattern_items (normalize_text phrase_text)) (normalize_text line_text))"

definition single_span :: "line_word \<Rightarrow> int \<times> int" where
  "single_span w = (word_position w, word_position w)"

definition first_token :: "pystr \<Rightarrow> line_word list \<Rightarrow> line_word option" where
  "first_token target lws = find (\<lambda>w. normalize_for_search (word_text w) = target) lws"

section \<open>Normalized words hold no apostrophe\<close>

lemma py_replace_single:
  "py_replace [a] new s = concat (map (\<lambda>c. if c = a then new else [c]) s)"
  by (induction s) auto

lemma remove_apostrophes: "py_replace [39] [] s = filter (\<lambda>c. c \<noteq> 39) s"
  by (induction s) auto

lemma normalize_for_search_no_apostrophe: "39 \<notin> set (normalize_for_search text)"
  by (simp add: normalize_for_search_def Let_def remove_apostrophes)

lemma rstrip_apostrophe_id: "39 \<notin> set s \<Longrightarrow> rstrip_apostrophe s = s"
proof -
  assume a: "39 \<notin> set s"
  have "dropWhile (\<lambda>c. c = 39) (rev s) = rev s"
    using a by (cases "rev s") (auto dest: arg_cong [where f = set])
  then show ?thesis by (simp add: rstrip_apostrophe_def)
qed

lemma py_split_from_words:
  "w \<in> set (py_split_from cur s) \<Longrightarrow> w \<noteq> [] \<and> set w \<subseteq> set cur \<union> set s"
  by (induction cur s rule: py_split_from.induct) (auto split: if_splits)

lemma py_split_words: "w \<in> set (py_split s) \<Longrightarrow> w \<noteq> [] \<and> set w \<subseteq> set s"
  using py_split_from_words [of w "[]" s] by (simp add: py_split_def)

lemma phrase_word_plain:
  "w \<in> set (phrase_words_of phrase_text) \<Longrightarrow> w \<noteq> [] \<and> 39 \<notin> set w"
  using py_split_words [of w "normalize_for_search phrase_text"]
    normalize_for_search_no_apostrophe [of phrase_text]
  by (auto simp: phrase_words_of_def)

lemma word_ok_plain:
  "39 \<notin> set pw \<Longrightarrow> 39 \<notin> set lw \<Longrightarrow> word_ok pw lw \<longleftrightarrow> lw = pw"
  by (auto simp: word_ok_def rstrip_apostrophe_id)

section \<open>The pattern always compiles\<close>

lemma replace_pair_other:
  "c \<noteq> 92 \<Longrightarrow> py_replace [92, 39] new (c # s) = c # py_replace [92, 39] new s"
  by simp

lemma replace_pair_backslash:
  "d \<noteq> 39 \<Longrightarrow> py_replace [92, 39] new (92 # d # s) = 92 # py_replace [92, 39] new (d # s)"
  by simp

lemma replace_pair_hit:
  "py_replace [92, 39] new (92 # 39 # s) = new @ py_replace [92, 39] new s"
  by simp

lemma replace_pair_last: "py_replace [92, 39] new [92] = [92]"
  by simp

lemma re_escape_Cons:
  "re_escape (c # s) = (if re_special c then [92, c] else [c]) @ re_escape s"
  by (simp add: re_escape_def)

lemma re_escape_Nil: "re_escape [] = []"
  by (simp add: re_escape_def)

lemma special_facts:
  "re_special 92" "\<not> re_special 39" "re_special 63"
  by (simp_all add: re_special_def)

lemma replace_single_append:
  "py_replace [a] new (s @ t) = py_replace [a] new s @ py_replace [a] new t"
  by (simp add: py_replace_single)

lemma pattern_source_Nil: "pattern_source [] = []"
  by (simp add: pattern_source_def re_escape_Nil)

lemma pattern_source_plain:
  "\<not> re_special c \<Longrightarrow> c \<noteq> 39 \<Longrightarrow> pattern_source (c # s) = c # pattern_source s"
  by (auto simp: pattern_source_def re_escape_Cons special_facts)

lemma pattern_source_apostrophe: "pattern_source (39 # s) = 39 # 63 # pattern_source s"
  by (simp add: pattern_source_def re_escape_Cons special_facts)

lemma pattern_source_special:
  "re_special c \<Longrightarrow> c \<noteq> 92 \<Longrightarrow> pattern_source (c # s) = 92 # c # pattern_source s"
  by (auto simp: pattern_source_def re_escape_Cons special_facts)

lemma pattern_source_pair:
  "pattern_source (92 # 39 # s) = 92 # 39 # 63 # 63 # pattern_source s"
  by (simp add: pattern_source_def re_escape_Cons special_facts)

lemma pattern_source_backslash_last: "pattern_source [92] = [92, 92]"
  by (simp add: pattern_source_def re_escape_Cons re_escape_Nil special_facts)

lemma pattern_source_backslash:
  "d \<noteq> 39 \<Longrightarrow> pattern_source (92 # d # s) = 92 # 92 # pattern_source (d # s)"
  by (auto simp: pattern_source_def re_escape_Cons special_facts)

lemma re_lex_plain:
  "c \<noteq> 92 \<Longrightarrow> c \<noteq> 63 \<Longrightarrow> \<not> re_meta c \<Longrightarrow> re_lex (c # s) = cons_ok (TLit c) (re_lex s)"
  by (cases s) (simp_all add: cons_ok_def)

lemma re_lex_escaped:
  "\<not> ascii_alnum d \<Longrightarrow> re_lex (92 # d # s) = cons_ok (TLit d) (re_lex s)"
  by simp

lemma re_lex_quest: "re_lex (63 # s) = cons_ok TQuest (re_lex s)"
  by (cases s) (simp_all add: cons_ok_def)

lemma re_lex_head:
  "re_lex s = Inr ts \<Longrightarrow> (\<exists>us. ts = TQuest # us) \<longleftrightarrow> (\<exists>t. s = 63 # t)"
  by (induction s arbitrary: ts rule: re_lex.induct)
     (auto simp: cons_ok_def split: if_splits sum.splits)

lemma re_items_lit:
  "(\<nexists>us. ts = TQuest # us) \<Longrightarrow> re_items (TLit c # ts) = cons_ok (Lit c) (re_items ts)"
  by (cases ts rule: re_items.cases) auto

lemma re_items_opt:
  "(\<nexists>us. ts = TQuest # us) \<Longrightarrow> re_items (TLit c # TQuest # ts) = cons_ok (Opt c) (re_items ts)"
  by (cases ts rule: re_items.cases) auto

lemma re_items_lazy:
  "re_items (TLit c # TQuest # TQuest # ts) = cons_ok (Opt c) (re_items ts)"
  by simp

lemma re_compile_lit:
  assumes "c \<noteq> 92" "c \<noteq> 63" "\<not> re_meta c" "no_quest s"
  shows "re_compile (c # s) = cons_ok (Lit c) (re_compile s)"
proof (cases "re_lex s")
  case (Inl e)
  then show ?thesis using assms by (simp add: re_compile_def re_lex_plain cons_ok_def)
next
  case (Inr ts)
  have "\<nexists>us. ts = TQuest # us"
    using re_lex_head [OF Inr] assms(4) by (auto simp: no_quest_def)
  then show ?thesis
    using assms Inr by (simp add: re_compile_def re_lex_plain cons_ok_def re_items_lit)
qed

lemma re_compile_escaped:
  assumes "\<not> ascii_alnum d" "no_quest s"
  shows "re_compile (92 # d # s) = cons_ok (Lit d) (re_compile s)"
proof (cases "re_lex s")
  case (Inl e)
  then show ?thesis using assms by (simp add: re_compile_def cons_ok_def)
next
  case (Inr ts)
  have "\<nexists>us. ts = TQuest # us"
    using re_lex_head [OF Inr] assms(2) by (auto simp: no_quest_def)
  then show ?thesis
    using assms Inr by (simp add: re_compile_def cons_ok_def re_items_lit)
qed

lemma re_compile_opt:
  assumes "no_quest s"
  shows "re_compile (39 # 63 # s) = cons_ok (Opt 39) (re_compile s)"
proof (cases "re_lex s")
  case (Inl e)
  then show ?thesis
    by (simp add: re_compile_def cons_ok_def re_lex_quest re_meta_def)
next
  case (Inr ts)
  have "\<nexists>us. ts = TQuest # us"
    using re_lex_head [OF Inr] assms by (auto simp: no_quest_def)
  then show ?thesis
    using Inr by (simp add: re_compile_def cons_ok_def re_lex_quest re_meta_def re_items_opt)
qed

lemma re_compile_lazy:
  "re_compile (92 # 39 # 63 # 63 # s) = cons_ok (Opt 39) (re_compile s)"
  by (cases "re_lex s")
     (simp_all add: re_compile_def cons_ok_def re_lex_quest ascii_alnum_def)

lemma special_not_alnum: "re_special c \<Longrightarrow> \<not> ascii_alnum c"
  by (auto simp: re_special_def ascii_alnum_def)

lemma meta_special: "re_meta c \<Longrightarrow> re_special c"
  by (auto simp: re_meta_def re_special_def)

lemma no_quest_pattern_source: "no_quest (pattern_source p)"
proof (cases p)
  case Nil
  then show ?thesis by (simp add: pattern_source_Nil no_quest_def)
next
  case (Cons c s)
  show ?thesis
  proof (cases "c = 39")
    case True
    then show ?thesis using Cons by (simp add: pattern_source_apostrophe no_quest_def)
  next
    case False
    show ?thesis
    proof (cases "re_special c")
      case True
      then have "\<exists>t. pattern_source (c # s) = 92 # t"
        by (cases s) (auto simp: pattern_source_def re_escape_Cons re_escape_Nil special_facts)
      then show ?thesis using Cons by (auto simp: no_quest_def)
    next
      case nsp: False
      then have "c \<noteq> 63" using special_facts by auto
      then show ?thesis using Cons False nsp by (simp add: pattern_source_plain no_quest_def)
    qed
  qed
qed

lemma re_compile_pattern_source: "re_compile (pattern_source p) = Inr (pattern_items p)"
proof (induction p rule: pattern_items.induct)
  case 1
  then show ?case by (simp add: pattern_source_Nil re_compile_def)
next
  case (2 c)
  have nq: "no_quest []" by (simp add: no_quest_def)
  have e: "re_compile [] = Inr []" by (simp add: re_compile_def)
  show ?case
  proof (cases "c = 39")
    case True
    then show ?thesis
      using re_compile_opt [OF nq] by (simp add: pattern_source_apostrophe pattern_source_Nil e cons_ok_def)
  next
    case False
    show ?thesis
    proof (cases "re_special c")
      case True
      then have "pattern_source [c] = [92, c]"
        by (auto simp: pattern_source_def re_escape_Cons re_escape_Nil special_facts)
      then show ?thesis
        using re_compile_escaped [OF special_not_alnum [OF True] nq] False
        by (simp add: e cons_ok_def)
    next
      case nsp: False
      then have "c \<noteq> 92" "c \<noteq> 63" "\<not> re_meta c"
        using special_facts meta_special by auto
      then show ?thesis
        using re_compile_lit [OF _ _ _ nq, of c] False nsp
        by (simp add: pattern_source_plain pattern_source_Nil e cons_ok_def)
    qed
  qed
next
  case (3 c d ds)
  note nq = no_quest_pattern_source
  show ?case
  proof (cases "c = 92 \<and> d = 39")
    case True
    then show ?thesis
      using 3 by (simp add: pattern_source_pair re_compile_lazy cons_ok_def)
  next
    case np: False
    show ?thesis
    proof (cases "c = 39")
      case True
      then show ?thesis
        using 3 np re_compile_opt [OF nq, of "d # ds"]
        by (simp add: pattern_source_apostrophe cons_ok_def)
    next
      case False
      have ih: "re_compile (pattern_source (d # ds)) = Inr (pattern_items (d # ds))"
        using 3 np False by simp
      show ?thesis
      proof (cases "re_special c")
        case True
        have "pattern_source (c # d # ds) = 92 # c # pattern_source (d # ds)"
        proof (cases "c = 92")
          case True
          then show ?thesis using np by (simp add: pattern_source_backslash)
        next
          case False
          then show ?thesis using True by (simp add: pattern_source_special)
        qed
        then show ?thesis
          using re_compile_escaped [OF special_not_alnum [OF True] nq, of "d # ds"] ih np False
          by (simp add: cons_ok_def)
      next
        case nsp: False
        then have "c \<noteq> 92" "c \<noteq> 63" "\<not> re_meta c"
          using special_facts meta_special by auto
        then show ?thesis
          using re_compile_lit [OF _ _ _ nq, of c "d # ds"] ih np False nsp
          by (simp add: pattern_source_plain cons_ok_def)
      qed
    qed
  qed
qed

section \<open>What the loops and the locator compute\<close>

lemma phrase_exists_in_line_eq:
  "phrase_exists_in_line line_text phrase_text = Inr (coarse_found line_text phrase_text)"
  using re_compile_pattern_source [of "normalize_text phrase_text"]
  by (simp add: phrase_exists_in_line_def Let_def re_search_bounded_def pattern_source_def
      coarse_found_def)

lemma norm_normalized [simp]:
  "norm (normalized w) = normalize_for_search (word_text w)"
  "position (normalized w) = word_position w"
  by (simp_all add: normalized_def)

lemma scan_exact_find:
  "scan_exact target (map normalized lws) =
     map_option (\<lambda>w. (word_position w, word_position w))
       (find (\<lambda>w. normalize_for_search (word_text w) = target) lws)"
  by (induction lws) auto

lemma scan_contraction_exact:
  "39 \<notin> set target \<Longrightarrow>
     scan_contraction target (map normalized lws) = scan_exact target (map normalized lws)"
  by (induction lws)
     (auto simp: rstrip_apostrophe_id normalize_for_search_no_apostrophe)

lemma window_Suc:
  "i < length lws \<Longrightarrow> window lws (Suc n) i = lws ! i # window lws n (Suc i)"
  by (simp add: window_def Cons_nth_drop_Suc [symmetric])

lemma match_words_spec:
  "i + j + length pws \<le> length lws \<Longrightarrow>
   \<exists>b ps. match_words (map normalized lws) i pws j acc = Inr (b, ps) \<and>
     (b \<longleftrightarrow> list_all2 word_ok pws
            (map (\<lambda>w. normalize_for_search (word_text w)) (window lws (length pws) (i + j)))) \<and>
     (b \<longrightarrow> ps = acc @ map word_position (window lws (length pws) (i + j))) \<and>
     (\<not> b \<longrightarrow> length ps < length acc + length pws)"
proof (induction pws arbitrary: j acc)
  case Nil
  show ?case by (rule exI [of _ True]) (simp add: window_def)
next
  case (Cons pw rest)
  then have lt: "i + j < length lws" by simp
  have w: "window lws (length (pw # rest)) (i + j) =
      lws ! (i + j) # window lws (length rest) (i + Suc j)"
    using window_Suc [OF lt] by simp
  show ?case
  proof (cases "word_ok pw (normalize_for_search (word_text (lws ! (i + j))))")
    case False
    then show ?thesis
      using lt w by (auto simp: word_ok_def Let_def split: if_splits)
  next
    case True
    have "i + Suc j + length rest \<le> length lws" using Cons.prems by simp
    from Cons.IH [OF this, of "acc @ [word_position (lws ! (i + j))]"]
    obtain b ps where
      r: "match_words (map normalized lws) i rest (Suc j)
            (acc @ [word_position (lws ! (i + j))]) = Inr (b, ps)"
      and b: "b \<longleftrightarrow> list_all2 word_ok rest
            (map (\<lambda>w. normalize_for_search (word_text w)) (window lws (length rest) (i + Suc j)))"
      and p: "b \<longrightarrow> ps = (acc @ [word_position (lws ! (i + j))]) @
            map word_position (window lws (length rest) (i + Suc j))"
      and n: "\<not> b \<longrightarrow> length ps < length (acc @ [word_position (lws ! (i + j))]) + length rest"
      by blast
    have "match_words (map normalized lws) i (pw # rest) j acc = Inr (b, ps)"
      using True lt r by (auto simp: word_ok_def Let_def split: if_splits)
    then show ?thesis
      using True b p n w by auto
  qed
qed

lemma span_of_nonempty:
  assumes "ps \<noteq> []"
  shows "span_of ps = Inr (Some (Min (set ps), Max (set ps)))"
proof (cases ps)
  case Nil
  then show ?thesis using assms by simp
next
  case (Cons a list)
  have m: "fold min list a = Min (set ps)" unfolding Cons by (rule Min.set_eq_fold [symmetric])
  have M: "fold max list a = Max (set ps)" unfolding Cons by (rule Max.set_eq_fold [symmetric])
  show ?thesis
    unfolding span_of_def py_min_def py_max_def Cons list.case sum.case
    using m M Cons by simp
qed

lemma window_ok_bound: "window_ok lws pws k \<Longrightarrow> k + length pws \<le> length lws"
  by (simp add: window_ok_def)

lemma length_window: "i + n \<le> length lws \<Longrightarrow> length (window lws n i) = n"
  by (simp add: window_def)

lemma scan_windows_find:
  "pws \<noteq> [] \<Longrightarrow>
   scan_windows (map normalized lws) pws i =
     Inr (map_option (window_span lws (length pws))
            (find (window_ok lws pws) [i..<length lws]))"
proof (induction "map normalized lws" pws i rule: scan_windows.induct)
  case (1 pws i)
  show ?case
  proof (cases "i < length lws")
    case False
    then show ?thesis by (simp add: scan_windows.simps [of _ pws i])
  next
    case lt: True
    then have upt: "[i..<length lws] = i # [Suc i..<length lws]"
      by (simp add: upt_conv_Cons)
    show ?thesis
    proof (cases "i + length pws > length lws")
      case True
      have "\<not> window_ok lws pws k" if "k \<in> set [i..<length lws]" for k
        using that True window_ok_bound [of lws pws k] by auto
      then have "find (window_ok lws pws) [i..<length lws] = None"
        by (simp add: find_None_iff)
      then show ?thesis
        using lt True by (simp add: scan_windows.simps [of _ pws i])
    next
      case False
      then have le: "i + 0 + length pws \<le> length lws" by simp
      from match_words_spec [OF le, of "[]"]
      obtain b ps where
        r: "match_words (map normalized lws) i pws 0 [] = Inr (b, ps)"
        and b: "b \<longleftrightarrow> list_all2 word_ok pws
            (map (\<lambda>w. normalize_for_search (word_text w)) (window lws (length pws) i))"
        and p: "b \<longrightarrow> ps = map word_position (window lws (length pws) i)"
        and n: "\<not> b \<longrightarrow> length ps < length pws"
        by auto
      have bw: "b \<longleftrightarrow> window_ok lws pws i"
        using b False by (simp add: window_ok_def)
      show ?thesis
      proof (cases b)
        case True
        then have ps: "ps = map word_position (window lws (length pws) i)" using p by simp
        have len: "length ps = length pws"
          using ps length_window [of i "length pws" lws] False by simp
        then have "ps \<noteq> []" using "1.prems" by auto
        then have "span_of ps = Inr (Some (window_span lws (length pws) i))"
          using ps by (simp add: span_of_nonempty window_span_def)
        then show ?thesis
          using lt False r True len bw upt
          by (simp add: scan_windows.simps [of _ pws i])
      next
        case nb: False
        then have "length ps \<noteq> length pws" using n by simp
        moreover have "scan_windows (map normalized lws) pws (Suc i) =
            Inr (map_option (window_span lws (length pws))
                   (find (window_ok lws pws) [Suc i..<length lws]))"
          using "1.hyps" [of "(b, ps)" b ps] lt False r nb n "1.prems" by simp
        ultimately show ?thesis
          using lt False r nb bw upt
          by (simp add: scan_windows.simps [of _ pws i])
      qed
    qed
  qed
qed

lemma find_phrase_positions_no_tokens: "find_phrase_positions line_text phrase_text [] = Inr None"
  by (simp add: find_phrase_positions_def)

lemma find_phrase_positions_no_words:
  "phrase_words_of phrase_text = [] \<Longrightarrow>
     find_phrase_positions line_text phrase_text lws = Inr None"
  by (simp add: find_phrase_positions_def Let_def phrase_words_of_def)

lemma find_phrase_positions_single:
  assumes "lws \<noteq> []" "phrase_words_of phrase_text = [target]"
  shows "find_phrase_positions line_text phrase_text lws =
     Inr (if length target < 3 \<or> coarse_found line_text phrase_text
          then map_option single_span (first_token target lws) else None)"
proof -
  have "target \<in> set (phrase_words_of phrase_text)" using assms by simp
  then have "39 \<notin> set target" using phrase_word_plain by blast
  then have c: "scan_contraction target (map normalized lws) =
      map_option single_span (first_token target lws)"
    by (simp add: scan_contraction_exact scan_exact_find first_token_def single_span_def [abs_def])
  have e: "scan_exact target (map normalized lws) =
      map_option single_span (first_token target lws)"
    by (simp add: scan_exact_find first_token_def single_span_def [abs_def])
  have w: "py_split (normalize_for_search phrase_text) = [target]"
    using assms(2) by (simp add: phrase_words_of_def)
  show ?thesis
    unfolding find_phrase_positions_def Let_def w phrase_exists_in_line_eq
    using assms(1) c e by simp
qed

lemma find_phrase_positions_multi:
  assumes "lws \<noteq> []" "phrase_words_of phrase_text = pws" "2 \<le> length pws"
  shows "find_phrase_positions line_text phrase_text lws =
     Inr (if coarse_found line_text phrase_text
          then map_option (window_span lws (length pws))
                 (find (window_ok lws pws) [0..<length lws])
          else None)"
proof -
  have ne: "pws \<noteq> []" "length pws \<noteq> 1" using assms(3) by auto
  have w: "py_split (normalize_for_search phrase_text) = pws"
    using assms(2) by (simp add: phrase_words_of_def)
  show ?thesis
    unfolding find_phrase_positions_def Let_def w phrase_exists_in_line_eq
    using assms(1) ne scan_windows_find [OF ne(1), of lws 0] by simp
qed

section \<open>The end-to-end scenario and the containment test\<close>

text \<open>
  Concrete calls are evaluated by unfolding: the string functions, the tests of the
  compiled pattern, and the tests on windows of tokens.
\<close>

lemmas py_defs = str_def py_isspace_def py_lower_cp_def py_lower_def py_lstrip_def py_rstrip_def
  py_strip_def nfc_def rstrip_apostrophe_def py_split_def normalize_text_def punctuation_def
  normalize_for_search_def phrase_words_of_def Let_def

lemmas match_defs = coarse_found_def is_word_def ci_eq_def

lemmas window_defs = window_ok_def window_def word_ok_def window_span_def tokens_def
  first_token_def single_span_def

text \<open>
  C8. On the line \<open>T\<uacute> tienes que irte pa' la casa ahora\<close>, with its eight words as tokens
  at positions 1 to 8, the expression \<open>pa' la casa\<close> is found at the span (5, 7).
\<close>

theorem end_to_end_scenario:
  "find_phrase_positions
     (str ''T'' @ [250] @ str '' tienes que irte pa'' @ [39] @ str '' la casa ahora'')
     (str ''pa'' @ [39] @ str '' la casa'')
     (tokens [(str ''T'' @ [250], 1), (str ''tienes'', 2), (str ''que'', 3), (str ''irte'', 4),
              (str ''pa'' @ [39], 5), (str ''la'', 6), (str ''casa'', 7), (str ''ahora'', 8)]) =
   Inr (Some (5, 7))"
proof -
  let ?line = "str ''T'' @ [250] @ str '' tienes que irte pa'' @ [39] @ str '' la casa ahora''"
  let ?phrase = "str ''pa'' @ [39] @ str '' la casa''"
  let ?lws = "tokens [(str ''T'' @ [250], 1), (str ''tienes'', 2), (str ''que'', 3),
     (str ''irte'', 4), (str ''pa'' @ [39], 5), (str ''la'', 6), (str ''casa'', 7),
     (str ''ahora'', 8)]"
  let ?pws = "[str ''pa'', str ''la'', str ''casa'']"
  have ne: "?lws \<noteq> []" by (simp add: tokens_def)
  have w: "phrase_words_of ?phrase = ?pws" by (simp add: py_defs)
  have c: "coarse_found ?line ?phrase" by (simp add: py_defs match_defs)
  have f: "find (window_ok ?lws ?pws) [0..<length ?lws] = Some 4"
    by (simp add: py_defs window_defs upt_rec)
  have s: "window_span ?lws (length ?pws) 4 = (5, 7)" by (simp add: window_defs)
  have len: "2 \<le> length ?pws" by simp
  have m: "find_phrase_positions ?line ?phrase ?lws =
      Inr (if coarse_found ?line ?phrase
           then map_option (window_span ?lws (length ?pws))
                  (find (window_ok ?lws ?pws) [0..<length ?lws])
           else None)"
    by (rule find_phrase_positions_multi [OF ne w len])
  show ?thesis by (simp only: m c f s if_True option.map)
qed

text \<open>
  C3. When the containment test on the line fails, a single-word expression whose
  normalized word has 3 characters or more, and every expression of several words, is not
  found, whatever the tokens are. The line \<open>No voy a casar a nadie\<close> does not hold \<open>casa\<close>.
\<close>

theorem coarse_check_rejects:
  assumes "phrase_exists_in_line line_text phrase_text = Inr False"
    and "2 \<le> length (phrase_words_of phrase_text) \<or>
         (\<exists>target. phrase_words_of phrase_text = [target] \<and> 3 \<le> length target)"
  shows "find_phrase_positions line_text phrase_text line_words = Inr None"
proof (cases "line_words = []")
  case True
  then show ?thesis by (simp add: find_phrase_positions_no_tokens)
next
  case ne: False
  have c: "\<not> coarse_found line_text phrase_text"
    using assms(1) by (simp add: phrase_exists_in_line_eq)
  from assms(2) show ?thesis
  proof
    assume "2 \<le> length (phrase_words_of phrase_text)"
    then show ?thesis using find_phrase_positions_multi [OF ne refl, of phrase_text line_text] c
      by simp
  next
    assume "\<exists>target. phrase_words_of phrase_text = [target] \<and> 3 \<le> length target"
    then obtain target where "phrase_words_of phrase_text = [target]" "3 \<le> length target"
      by blast
    then show ?thesis using find_phrase_positions_single [OF ne, of phrase_text target line_text] c
      by simp
  qed
qed

theorem coarse_check_rejects_witness:
  "phrase_exists_in_line (str ''No voy a casar a nadie'') (str ''casa'') = Inr False \<and>
   phrase_words_of (str ''casa'') = [str ''casa''] \<and>
   find_phrase_positions (str ''No voy a casar a nadie'') (str ''casa'')
     (tokens [(str ''No'', 1), (str ''voy'', 2), (str ''a'', 3), (str ''casar'', 4),
              (str ''a'', 5), (str ''nadie'', 6)]) = Inr None"
proof -
  have c: "phrase_exists_in_line (str ''No voy a casar a nadie'') (str ''casa'') = Inr False"
    unfolding phrase_exists_in_line_eq by (simp add: py_defs match_defs)
  have w: "phrase_words_of (str ''casa'') = [str ''casa'']" by (simp add: py_defs)
  have l: "2 \<le> length (phrase_words_of (str ''casa'')) \<or>
         (\<exists>target. phrase_words_of (str ''casa'') = [target] \<and> 3 \<le> length target)"
    unfolding w by (simp add: str_def)
  show ?thesis using coarse_check_rejects [OF c l] c w by simp
qed

section \<open>Windows and the first match\<close>

lemma find_upt_Some:
  "find P [0..<n] = Some i \<longleftrightarrow> i < n \<and> P i \<and> (\<forall>k<i. \<not> P k)"
  by (auto simp: find_Some_iff)

lemma find_upt_None: "find P [0..<n] = None \<longleftrightarrow> (\<forall>i<n. \<not> P i)"
  by (auto simp: find_None_iff)

lemma window_nth:
  "i + n \<le> length lws \<Longrightarrow> j < n \<Longrightarrow> window lws n i ! j = lws ! (i + j)"
  by (simp add: window_def)

lemma window_ok_nth:
  assumes "window_ok lws pws i" "j < length pws"
  shows "word_ok (pws ! j) (normalize_for_search (word_text (lws ! (i + j))))"
proof -
  have b: "i + length pws \<le> length lws" using assms(1) by (rule window_ok_bound)
  have "list_all2 word_ok pws
      (map (\<lambda>w. normalize_for_search (word_text w)) (window lws (length pws) i))"
    using assms(1) by (simp add: window_ok_def)
  then have "word_ok (pws ! j)
      (map (\<lambda>w. normalize_for_search (word_text w)) (window lws (length pws) i) ! j)"
    using assms(2) by (rule list_all2_nthD)
  then show ?thesis using b assms(2) by (simp add: length_window window_nth)
qed

lemma find_phrase_positions_short:
  assumes "phrase_words_of phrase_text = [target]" "length target < 3"
  shows "find_phrase_positions line_text phrase_text lws =
     Inr (map_option single_span (first_token target lws))"
proof (cases "lws = []")
  case True
  then show ?thesis by (simp add: find_phrase_positions_no_tokens first_token_def)
next
  case False
  then show ?thesis using find_phrase_positions_single [OF False assms(1)] assms(2) by simp
qed

lemma find_phrase_positions_multi_Some:
  assumes "2 \<le> length (phrase_words_of phrase_text)"
    and "find_phrase_positions line_text phrase_text lws = Inr (Some span)"
  shows "coarse_found line_text phrase_text \<and>
     (\<exists>i. window_ok lws (phrase_words_of phrase_text) i \<and>
          (\<forall>k<i. \<not> window_ok lws (phrase_words_of phrase_text) k) \<and>
          span = window_span lws (length (phrase_words_of phrase_text)) i)"
proof -
  have ne: "lws \<noteq> []" using assms(2) by (auto simp: find_phrase_positions_no_tokens)
  note m = find_phrase_positions_multi [OF ne refl assms(1), of line_text]
  have c: "coarse_found line_text phrase_text" using assms(2) m by (auto split: if_splits)
  then obtain i where i: "find (window_ok lws (phrase_words_of phrase_text)) [0..<length lws] = Some i"
    and s: "span = window_span lws (length (phrase_words_of phrase_text)) i"
    using assms(2) m by auto
  show ?thesis using c i s by (auto simp: find_upt_Some)
qed

section \<open>Short words and trailing apostrophes\<close>

text \<open>
  C2. A word of the expression whose normalized form has fewer than 3 characters is matched
  by equality with the normalized text of a token and by nothing else. When it is the whole
  expression, the result is the position of the first token whose normalized text equals
  it, or nothing, whatever the line is. When it is one word of a longer expression, the
  window that is found has a token with that very normalized text at its place.
\<close>

theorem short_word_exactness:
  "(phrase_words_of phrase_text = [target] \<and> length target < 3 \<longrightarrow>
      find_phrase_positions line_text phrase_text line_words =
        Inr (map_option single_span (first_token target line_words))) \<and>
   (2 \<le> length (phrase_words_of phrase_text) \<and>
    find_phrase_positions line_text phrase_text line_words = Inr (Some span) \<longrightarrow>
      (\<exists>i. i + length (phrase_words_of phrase_text) \<le> length line_words \<and>
           span = window_span line_words (length (phrase_words_of phrase_text)) i \<and>
           (\<forall>j<length (phrase_words_of phrase_text).
              length (phrase_words_of phrase_text ! j) < 3 \<longrightarrow>
              normalize_for_search (word_text (line_words ! (i + j))) =
                phrase_words_of phrase_text ! j)))"
proof (intro conjI impI)
  assume "phrase_words_of phrase_text = [target] \<and> length target < 3"
  then show "find_phrase_positions line_text phrase_text line_words =
      Inr (map_option single_span (first_token target line_words))"
    by (simp add: find_phrase_positions_short)
next
  let ?pws = "phrase_words_of phrase_text"
  assume a: "2 \<le> length ?pws \<and>
    find_phrase_positions line_text phrase_text line_words = Inr (Some span)"
  then obtain i where ok: "window_ok line_words ?pws i"
    and s: "span = window_span line_words (length ?pws) i"
    using find_phrase_positions_multi_Some [of phrase_text line_text line_words span] by blast
  have "normalize_for_search (word_text (line_words ! (i + j))) = ?pws ! j"
    if "j < length ?pws" "length (?pws ! j) < 3" for j
    using window_ok_nth [OF ok that(1)] that(2) by (simp add: word_ok_def)
  then show "\<exists>i. i + length ?pws \<le> length line_words \<and>
           span = window_span line_words (length ?pws) i \<and>
           (\<forall>j<length ?pws. length (?pws ! j) < 3 \<longrightarrow>
              normalize_for_search (word_text (line_words ! (i + j))) = ?pws ! j)"
    using window_ok_bound [OF ok] s by blast
qed

theorem short_word_exactness_witness:
  "find_phrase_positions (str ''la lava'') (str ''la'')
     (tokens [(str ''la'', 1), (str ''lava'', 2)]) = Inr (Some (1, 1)) \<and>
   find_phrase_positions (str ''lava la'') (str ''la'')
     (tokens [(str ''lava'', 1), (str ''la'', 2)]) = Inr (Some (2, 2)) \<and>
   find_phrase_positions (str ''lava'') (str ''la'') (tokens [(str ''lava'', 1)]) = Inr None \<and>
   find_phrase_positions (str ''la casa'') (str ''la casa'')
     (tokens [(str ''la'', 1), (str ''casa'', 2)]) = Inr (Some (1, 2)) \<and>
   (\<exists>i. i + length (phrase_words_of (str ''la casa'')) \<le>
          length (tokens [(str ''la'', 1), (str ''casa'', 2)]) \<and>
        (1, 2) = window_span (tokens [(str ''la'', 1), (str ''casa'', 2)])
                   (length (phrase_words_of (str ''la casa''))) i \<and>
        (\<forall>j<length (phrase_words_of (str ''la casa'')).
           length (phrase_words_of (str ''la casa'') ! j) < 3 \<longrightarrow>
           normalize_for_search
             (word_text (tokens [(str ''la'', 1), (str ''casa'', 2)] ! (i + j))) =
           phrase_words_of (str ''la casa'') ! j))"
proof -
  let ?lws = "tokens [(str ''la'', 1), (str ''casa'', 2)]"
  let ?pws = "[str ''la'', str ''casa'']"
  have w: "phrase_words_of (str ''la'') = [str ''la''] \<and> length (str ''la'') < 3"
    by (simp add: py_defs)
  have a: "first_token (str ''la'') (tokens [(str ''la'', 1), (str ''lava'', 2)]) =
      Some \<lparr>word_text = str ''la'', word_position = 1\<rparr>"
    by (simp add: py_defs window_defs)
  have b: "first_token (str ''la'') (tokens [(str ''lava'', 1), (str ''la'', 2)]) =
      Some \<lparr>word_text = str ''la'', word_position = 2\<rparr>"
    by (simp add: py_defs window_defs)
  have c: "first_token (str ''la'') (tokens [(str ''lava'', 1)]) = None"
    by (simp add: py_defs window_defs)
  have single: "find_phrase_positions (str ''la lava'') (str ''la'')
       (tokens [(str ''la'', 1), (str ''lava'', 2)]) = Inr (Some (1, 1)) \<and>
     find_phrase_positions (str ''lava la'') (str ''la'')
       (tokens [(str ''lava'', 1), (str ''la'', 2)]) = Inr (Some (2, 2)) \<and>
     find_phrase_positions (str ''lava'') (str ''la'') (tokens [(str ''lava'', 1)]) = Inr None"
    using short_word_exactness [of "str ''la''" "str ''la''" "str ''la lava''"
        "tokens [(str ''la'', 1), (str ''lava'', 2)]"]
      short_word_exactness [of "str ''la''" "str ''la''" "str ''lava la''"
        "tokens [(str ''lava'', 1), (str ''la'', 2)]"]
      short_word_exactness [of "str ''la''" "str ''la''" "str ''lava''"
        "tokens [(str ''lava'', 1)]"]
      w a b c
    by (simp add: single_span_def)
  have ne: "?lws \<noteq> []" by (simp add: tokens_def)
  have pw: "phrase_words_of (str ''la casa'') = ?pws" by (simp add: py_defs)
  have len: "2 \<le> length ?pws" by simp
  have co: "coarse_found (str ''la casa'') (str ''la casa'')" by (simp add: py_defs match_defs)
  have f: "find (window_ok ?lws ?pws) [0..<length ?lws] = Some 0"
    by (simp add: py_defs window_defs upt_rec)
  have s: "window_span ?lws (length ?pws) 0 = (1, 2)" by (simp add: window_defs)
  have m: "find_phrase_positions (str ''la casa'') (str ''la casa'') ?lws =
      Inr (if coarse_found (str ''la casa'') (str ''la casa'')
           then map_option (window_span ?lws (length ?pws))
                  (find (window_ok ?lws ?pws) [0..<length ?lws])
           else None)"
    by (rule find_phrase_positions_multi [OF ne pw len])
  have found: "find_phrase_positions (str ''la casa'') (str ''la casa'') ?lws =
      Inr (Some (1, 2))"
    by (simp only: m co f s if_True option.map)
  have len': "2 \<le> length (phrase_words_of (str ''la casa''))" unfolding pw by simp
  show ?thesis
    using single found len'
      short_word_exactness [of "str ''la casa''" "[]" "str ''la casa''" ?lws "(1, 2)"]
    by blast
qed

text \<open>
  C4. Whatever the line is, when some token has a text that normalizes to \<open>pa\<close>, the
  expressions \<open>pa'\<close> and \<open>pa\<close> are both found at the first such token, with its position as
  both ends of the span; the token text \<open>pa'\<close> normalizes to \<open>pa\<close>, and so is such a token.
\<close>

theorem trailing_apostrophe_single_word:
  assumes "first_token (str ''pa'') line_words = Some w"
  shows "find_phrase_positions line_text (str ''pa'' @ [39]) line_words =
           Inr (Some (word_position w, word_position w)) \<and>
         find_phrase_positions line_text (str ''pa'') line_words =
           Inr (Some (word_position w, word_position w)) \<and>
         normalize_for_search (str ''pa'' @ [39]) = str ''pa''"
proof -
  have a: "phrase_words_of (str ''pa'' @ [39]) = [str ''pa'']" by (simp add: py_defs)
  have b: "phrase_words_of (str ''pa'') = [str ''pa'']" by (simp add: py_defs)
  have l: "length (str ''pa'') < 3" by (simp add: str_def)
  have n: "normalize_for_search (str ''pa'' @ [39]) = str ''pa''" by (simp add: py_defs)
  show ?thesis
    using find_phrase_positions_short [OF a l, of line_text line_words]
      find_phrase_positions_short [OF b l, of line_text line_words] assms n
    by (simp add: single_span_def)
qed

theorem trailing_apostrophe_single_word_witness:
  "first_token (str ''pa'') (tokens [(str ''irte'', 4), (str ''pa'' @ [39], 5), (str ''pa'', 6)]) =
     Some \<lparr>word_text = str ''pa'' @ [39], word_position = 5\<rparr> \<and>
   find_phrase_positions (str ''irte pa'' @ [39] @ str '' pa'') (str ''pa'' @ [39])
     (tokens [(str ''irte'', 4), (str ''pa'' @ [39], 5), (str ''pa'', 6)]) = Inr (Some (5, 5)) \<and>
   find_phrase_positions (str ''irte pa'' @ [39] @ str '' pa'') (str ''pa'')
     (tokens [(str ''irte'', 4), (str ''pa'' @ [39], 5), (str ''pa'', 6)]) = Inr (Some (5, 5))"
proof -
  have f: "first_token (str ''pa'')
      (tokens [(str ''irte'', 4), (str ''pa'' @ [39], 5), (str ''pa'', 6)]) =
     Some \<lparr>word_text = str ''pa'' @ [39], word_position = 5\<rparr>"
    by (simp add: py_defs window_defs)
  show ?thesis
    using trailing_apostrophe_single_word [OF f, of "str ''irte pa'' @ [39] @ str '' pa''"] f
    by simp
qed

section \<open>Inputs that hold no word\<close>

lemma py_split_from_blank:
  "\<forall>c\<in>set s. py_isspace c \<Longrightarrow> py_split_from [] s = []"
  by (induction s) auto

lemma blank_lower: "py_isspace c \<Longrightarrow> py_isspace (py_lower_cp c)"
  by (auto simp: py_isspace_def py_lower_cp_def)

lemma punctuation_lower: "punctuation c \<Longrightarrow> py_lower_cp c = c"
  by (auto simp: punctuation_def py_lower_cp_def)

lemma set_py_strip: "set (py_strip s) \<subseteq> set s"
proof -
  have "set (py_rstrip t) \<subseteq> set t" for t
    using set_dropWhileD [of _ py_isspace "rev t"] by (auto simp: py_rstrip_def)
  moreover have "set (py_lstrip s) \<subseteq> set s"
    using set_dropWhileD [of _ py_isspace s] by (auto simp: py_lstrip_def)
  ultimately show ?thesis unfolding py_strip_def by blast
qed

lemma set_remove_apostrophes: "set (py_replace [39] [] s) \<subseteq> set s"
  by (induction s) auto

lemma set_normalize_for_search:
  "set (normalize_for_search text) \<subseteq> {c \<in> py_lower_cp ` set text. \<not> punctuation c}"
proof -
  have "set (normalize_text text) \<subseteq> py_lower_cp ` set text"
    using set_py_strip [of "py_lower text"] by (simp add: normalize_text_def nfc_def py_lower_def)
  then show ?thesis
    using set_remove_apostrophes [of "normalize_text text"]
      set_remove_apostrophes [of "py_replace [39] [] (normalize_text text)"]
    by (auto simp: normalize_for_search_def Let_def)
qed

lemma phrase_words_of_blank:
  assumes "\<forall>c\<in>set phrase_text. punctuation c \<or> py_isspace c"
  shows "phrase_words_of phrase_text = []"
proof -
  have "\<forall>c\<in>set (normalize_for_search phrase_text). py_isspace c"
  proof
    fix c assume "c \<in> set (normalize_for_search phrase_text)"
    then obtain d where d: "d \<in> set phrase_text" "c = py_lower_cp d" "\<not> punctuation c"
      using set_normalize_for_search [of phrase_text] by auto
    then show "py_isspace c" using assms blank_lower punctuation_lower by metis
  qed
  then show ?thesis by (simp add: phrase_words_of_def py_split_def py_split_from_blank)
qed

lemma first_token_blank:
  assumes "\<forall>w\<in>set lws. normalize_for_search (word_text w) = []" "target \<noteq> []"
  shows "first_token target lws = None"
  using assms by (auto simp: first_token_def find_None_iff)

lemma window_ok_blank:
  assumes "\<forall>w\<in>set lws. normalize_for_search (word_text w) = []"
    and "\<forall>pw\<in>set pws. pw \<noteq> [] \<and> 39 \<notin> set pw" "pws \<noteq> []"
  shows "\<not> window_ok lws pws i"
proof
  assume ok: "window_ok lws pws i"
  have j: "0 < length pws" using assms(3) by simp
  have b: "i + length pws \<le> length lws" using ok by (rule window_ok_bound)
  then have "i < length lws" using j by linarith
  then have "lws ! (i + 0) \<in> set lws" by simp
  then have n: "normalize_for_search (word_text (lws ! (i + 0))) = []" using assms(1) by blast
  have p: "pws ! 0 \<in> set pws" using j by simp
  have "word_ok (pws ! 0) []" using window_ok_nth [OF ok j] n by simp
  then have "[] = pws ! 0" using word_ok_plain [of "pws ! 0" "[]"] assms(2) p by simp
  then show False using assms(2) p by metis
qed

lemma find_phrase_positions_total:
  "\<exists>r. find_phrase_positions line_text phrase_text lws = Inr r"
proof (cases "lws = []")
  case True
  then show ?thesis by (simp add: find_phrase_positions_no_tokens)
next
  case ne: False
  show ?thesis
  proof (cases "phrase_words_of phrase_text")
    case Nil
    then show ?thesis by (simp add: find_phrase_positions_no_words)
  next
    case (Cons target rest)
    show ?thesis
    proof (cases rest)
      case Nil
      then show ?thesis using find_phrase_positions_single [OF ne, of phrase_text target] Cons
        by simp
    next
      case (Cons a list)
      then have "2 \<le> length (phrase_words_of phrase_text)"
        using \<open>phrase_words_of phrase_text = target # rest\<close> by simp
      then show ?thesis using find_phrase_positions_multi [OF ne refl] by blast
    qed
  qed
qed

lemma find_phrase_positions_blank_tokens:
  assumes "\<forall>w\<in>set lws. normalize_for_search (word_text w) = []"
  shows "find_phrase_positions line_text phrase_text lws = Inr None"
proof (cases "lws = []")
  case True
  then show ?thesis by (simp add: find_phrase_positions_no_tokens)
next
  case ne: False
  have plain: "\<forall>pw\<in>set (phrase_words_of phrase_text). pw \<noteq> [] \<and> 39 \<notin> set pw"
    using phrase_word_plain by blast
  show ?thesis
  proof (cases "phrase_words_of phrase_text")
    case Nil
    then show ?thesis by (simp add: find_phrase_positions_no_words)
  next
    case (Cons target rest)
    show ?thesis
    proof (cases rest)
      case Nil
      then have w: "phrase_words_of phrase_text = [target]" using Cons by simp
      then have "target \<noteq> []" using plain by simp
      then show ?thesis
        using find_phrase_positions_single [OF ne w] first_token_blank [OF assms] by simp
    next
      case (Cons a list)
      then have l: "2 \<le> length (phrase_words_of phrase_text)"
        using \<open>phrase_words_of phrase_text = target # rest\<close> by simp
      then have "phrase_words_of phrase_text \<noteq> []" by auto
      then have "find (window_ok lws (phrase_words_of phrase_text)) [0..<length lws] = None"
        using window_ok_blank [OF assms plain] by (simp add: find_upt_None)
      then show ?thesis using find_phrase_positions_multi [OF ne refl l, of line_text] by simp
    qed
  qed
qed

text \<open>
  C7. The locator never raises: on every input it returns, a span or nothing. It returns
  nothing for the empty expression, for every expression whose normalized form holds no
  word, such as one made of the removed punctuation marks and white space only, and
  whenever the text of every token normalizes to the empty string.
\<close>

theorem malformed_input_not_found:
  "(\<exists>r. find_phrase_positions line_text phrase_text line_words = Inr r) \<and>
   find_phrase_positions line_text [] line_words = Inr None \<and>
   (phrase_words_of phrase_text = [] \<longrightarrow>
      find_phrase_positions line_text phrase_text line_words = Inr None) \<and>
   ((\<forall>c\<in>set phrase_text. punctuation c \<or> py_isspace c) \<longrightarrow>
      find_phrase_positions line_text phrase_text line_words = Inr None) \<and>
   ((\<forall>w\<in>set line_words. normalize_for_search (word_text w) = []) \<longrightarrow>
      find_phrase_positions line_text phrase_text line_words = Inr None)"
proof -
  have "phrase_words_of [] = []" by (simp add: phrase_words_of_blank)
  then have "find_phrase_positions line_text [] line_words = Inr None"
    by (rule find_phrase_positions_no_words)
  then show ?thesis
    using find_phrase_positions_total [of line_text phrase_text line_words]
      find_phrase_positions_no_words [of phrase_text line_text line_words]
      phrase_words_of_blank [of phrase_text]
      find_phrase_positions_blank_tokens [of line_words line_text phrase_text]
    by blast
qed

theorem malformed_input_not_found_witness:
  "find_phrase_positions (str ''la casa'')
     [191, 161, 46, 44, 33, 63, 59, 58] (tokens [(str ''la'', 1), (str ''casa'', 2)]) = Inr None \<and>
   find_phrase_positions (str ''... !?'') (str ''casa'')
     (tokens [(str ''...'', 1), (str ''!?'', 2)]) = Inr None"
proof -
  have p: "\<forall>c\<in>set [191, 161, 46, 44, 33, 63, 59, 58]. punctuation c \<or> py_isspace c"
    by (simp add: punctuation_def)
  have t: "\<forall>w\<in>set (tokens [(str ''...'', 1), (str ''!?'', 2)]).
      normalize_for_search (word_text w) = []"
    by (simp add: py_defs tokens_def)
  show ?thesis
    using malformed_input_not_found [of "str ''la casa''" "[191, 161, 46, 44, 33, 63, 59, 58]"
        "tokens [(str ''la'', 1), (str ''casa'', 2)]"]
      malformed_input_not_found [of "str ''... !?''" "str ''casa''"
        "tokens [(str ''...'', 1), (str ''!?'', 2)]"]
      p t
    by blast
qed

section \<open>The repertoire is closed\<close>

text \<open>
  Lower-casing, stripping, removing apostrophes and punctuation, and splitting lead from
  strings of the repertoire to strings of the repertoire, so that on a line, an expression
  and tokens of the repertoire every string the locator handles is one on which the
  definitions above are the library functions.
\<close>

lemma py_lower_cp_repertoire: "repertoire c \<Longrightarrow> repertoire (py_lower_cp c)"
  by (auto simp: repertoire_def py_lower_cp_def)

lemma in_repertoire_subset: "set t \<subseteq> set s \<Longrightarrow> in_repertoire s \<Longrightarrow> in_repertoire t"
  by (auto simp: in_repertoire_def list_all_iff)

lemma py_lower_repertoire: "in_repertoire s \<Longrightarrow> in_repertoire (py_lower s)"
  by (auto simp: in_repertoire_def list_all_iff py_lower_def py_lower_cp_repertoire)

lemma normalize_text_repertoire: "in_repertoire s \<Longrightarrow> in_repertoire (normalize_text s)"
  unfolding normalize_text_def nfc_def
  using in_repertoire_subset [OF set_py_strip] py_lower_repertoire by blast

lemma normalize_for_search_repertoire:
  "in_repertoire s \<Longrightarrow> in_repertoire (normalize_for_search s)"
  using in_repertoire_subset [of "normalize_for_search s" "normalize_text s"]
    normalize_text_repertoire [of s]
  by (auto simp: normalize_for_search_def Let_def remove_apostrophes)

lemma phrase_words_of_repertoire:
  "in_repertoire phrase_text \<Longrightarrow> w \<in> set (phrase_words_of phrase_text) \<Longrightarrow> in_repertoire w"
  using py_split_words [of w "normalize_for_search phrase_text"]
    normalize_for_search_repertoire [of phrase_text] in_repertoire_subset
  by (auto simp: phrase_words_of_def)

section \<open>The span that is returned\<close>

lemma first_token_member: "first_token target lws = Some w \<Longrightarrow> w \<in> set lws"
  by (auto simp: first_token_def find_Some_iff)

lemma window_subset: "set (window lws n i) \<subseteq> set lws"
  using set_take_subset [of n "drop i lws"] set_drop_subset [of i lws]
  by (auto simp: window_def)

lemma window_span_bounds:
  assumes "i + n \<le> length lws" "0 < n"
  shows "fst (window_span lws n i) \<le> snd (window_span lws n i) \<and>
         fst (window_span lws n i) \<in> word_position ` set lws \<and>
         snd (window_span lws n i) \<in> word_position ` set lws"
proof -
  let ?P = "set (map word_position (window lws n i))"
  have "length (window lws n i) = n" using assms(1) by (rule length_window)
  then have ne: "?P \<noteq> {}" using assms(2) by auto
  have fin: "finite ?P" by simp
  have sub: "?P \<subseteq> word_position ` set lws" using window_subset [of lws n i] by auto
  have "Min ?P \<in> ?P" "Max ?P \<in> ?P" using fin ne by (rule Min_in, rule Max_in)
  moreover have "Min ?P \<le> Max ?P" using fin ne by simp
  ultimately show ?thesis using sub by (auto simp: window_span_def)
qed

text \<open>
  C6. A span that is returned has its start at or before its end, and both are positions
  of tokens of the list. For an expression of one word the two are equal. For an
  expression of several words they are the least and the greatest position in a window of
  tokens that matches the expression. Nothing is assumed of the positions.
\<close>

theorem match_span_invariant:
  assumes "find_phrase_positions line_text phrase_text line_words = Inr (Some (s, e))"
  shows "s \<le> e \<and> s \<in> word_position ` set line_words \<and> e \<in> word_position ` set line_words \<and>
     (length (phrase_words_of phrase_text) = 1 \<longrightarrow> s = e) \<and>
     (2 \<le> length (phrase_words_of phrase_text) \<longrightarrow>
        (\<exists>i. window_ok line_words (phrase_words_of phrase_text) i \<and>
           s = Min (set (map word_position
                 (window line_words (length (phrase_words_of phrase_text)) i))) \<and>
           e = Max (set (map word_position
                 (window line_words (length (phrase_words_of phrase_text)) i)))))"
proof -
  let ?pws = "phrase_words_of phrase_text"
  have ne: "line_words \<noteq> []" using assms by (auto simp: find_phrase_positions_no_tokens)
  have pne: "?pws \<noteq> []" using assms find_phrase_positions_no_words [of phrase_text] by auto
  show ?thesis
  proof (cases "length ?pws = 1")
    case True
    then obtain target where w: "?pws = [target]" by (cases ?pws) auto
    obtain tok where t: "first_token target line_words = Some tok" and se: "(s, e) = single_span tok"
      using assms find_phrase_positions_single [OF ne w, of line_text]
      by (auto split: if_splits)
    have "tok \<in> set line_words" using t by (rule first_token_member)
    then show ?thesis using se True by (auto simp: single_span_def)
  next
    case False
    moreover have "0 < length ?pws" using pne by simp
    ultimately have l: "2 \<le> length ?pws" by linarith
    obtain i where ok: "window_ok line_words ?pws i"
      and se: "(s, e) = window_span line_words (length ?pws) i"
      using find_phrase_positions_multi_Some [OF l assms] by blast
    have "0 < length ?pws" using l by linarith
    then show ?thesis
      using window_span_bounds [OF window_ok_bound [OF ok]] se [symmetric] ok l
      by (auto simp: window_span_def)
  qed
qed

theorem match_span_invariant_witness:
  "find_phrase_positions (str ''tener que ver'') (str ''tener que ver'')
     (tokens [(str ''tener'', 10), (str ''que'', 7), (str ''ver'', 30)]) = Inr (Some (7, 30)) \<and>
   (7::int) \<le> 30 \<and>
   7 \<in> word_position ` set (tokens [(str ''tener'', 10), (str ''que'', 7), (str ''ver'', 30)]) \<and>
   30 \<in> word_position ` set (tokens [(str ''tener'', 10), (str ''que'', 7), (str ''ver'', 30)])"
proof -
  let ?line = "str ''tener que ver''"
  let ?lws = "tokens [(str ''tener'', 10), (str ''que'', 7), (str ''ver'', 30)]"
  let ?pws = "[str ''tener'', str ''que'', str ''ver'']"
  have ne: "?lws \<noteq> []" by (simp add: tokens_def)
  have w: "phrase_words_of ?line = ?pws" by (simp add: py_defs)
  have len: "2 \<le> length ?pws" by simp
  have c: "coarse_found ?line ?line" by (simp add: py_defs match_defs)
  have f: "find (window_ok ?lws ?pws) [0..<length ?lws] = Some 0"
    by (simp add: py_defs window_defs upt_rec)
  have s: "window_span ?lws (length ?pws) 0 = (7, 30)" by (simp add: window_defs)
  have m: "find_phrase_positions ?line ?line ?lws =
      Inr (if coarse_found ?line ?line
           then map_option (window_span ?lws (length ?pws))
                  (find (window_ok ?lws ?pws) [0..<length ?lws])
           else None)"
    by (rule find_phrase_positions_multi [OF ne w len])
  have found: "find_phrase_positions ?line ?line ?lws = Inr (Some (7, 30))"
    by (simp only: m c f s if_True option.map)
  show ?thesis using match_span_invariant [OF found] found by simp
qed

section \<open>The leftmost window\<close>

text \<open>
  C1, as amended. When the line passes the containment test, the expression has two words
  or more, and some window of consecutive tokens matches it, the result is the span of the
  first such window, counted from the left, whatever windows match further right. The
  tokens \<open>tener que ver con tener que ver\<close> at positions 1 to 7, on the line of that text,
  give the span (1, 3) for \<open>tener que ver\<close>, though the window at positions 5 to 7 matches as
  well.
\<close>

theorem leftmost_window:
  assumes "phrase_exists_in_line line_text phrase_text = Inr True"
    and "2 \<le> length (phrase_words_of phrase_text)"
    and "window_ok line_words (phrase_words_of phrase_text) i"
    and "\<forall>k<i. \<not> window_ok line_words (phrase_words_of phrase_text) k"
  shows "find_phrase_positions line_text phrase_text line_words =
     Inr (Some (window_span line_words (length (phrase_words_of phrase_text)) i))"
proof -
  let ?pws = "phrase_words_of phrase_text"
  have b: "i + length ?pws \<le> length line_words" using assms(3) by (rule window_ok_bound)
  then have lt: "i < length line_words" using assms(2) by linarith
  then have ne: "line_words \<noteq> []" by auto
  have c: "coarse_found line_text phrase_text"
    using assms(1) by (simp add: phrase_exists_in_line_eq)
  have "find (window_ok line_words ?pws) [0..<length line_words] = Some i"
    using lt assms(3,4) by (simp add: find_upt_Some)
  then show ?thesis
    using find_phrase_positions_multi [OF ne refl assms(2), of line_text] c by simp
qed

theorem leftmost_window_witness:
  "window_ok (tokens [(str ''tener'', 1), (str ''que'', 2), (str ''ver'', 3), (str ''con'', 4),
                      (str ''tener'', 5), (str ''que'', 6), (str ''ver'', 7)])
     (phrase_words_of (str ''tener que ver'')) 0 \<and>
   window_ok (tokens [(str ''tener'', 1), (str ''que'', 2), (str ''ver'', 3), (str ''con'', 4),
                      (str ''tener'', 5), (str ''que'', 6), (str ''ver'', 7)])
     (phrase_words_of (str ''tener que ver'')) 4 \<and>
   find_phrase_positions (str ''tener que ver con tener que ver'') (str ''tener que ver'')
     (tokens [(str ''tener'', 1), (str ''que'', 2), (str ''ver'', 3), (str ''con'', 4),
              (str ''tener'', 5), (str ''que'', 6), (str ''ver'', 7)]) = Inr (Some (1, 3))"
proof -
  let ?line = "str ''tener que ver con tener que ver''"
  let ?phrase = "str ''tener que ver''"
  let ?lws = "tokens [(str ''tener'', 1), (str ''que'', 2), (str ''ver'', 3), (str ''con'', 4),
                      (str ''tener'', 5), (str ''que'', 6), (str ''ver'', 7)]"
  have w: "phrase_words_of ?phrase = [str ''tener'', str ''que'', str ''ver'']"
    by (simp add: py_defs)
  have len: "2 \<le> length (phrase_words_of ?phrase)" unfolding w by simp
  have c: "phrase_exists_in_line ?line ?phrase = Inr True"
    unfolding phrase_exists_in_line_eq by (simp add: py_defs match_defs)
  have ok0: "window_ok ?lws (phrase_words_of ?phrase) 0"
    unfolding w by (simp add: py_defs window_defs)
  have ok4: "window_ok ?lws (phrase_words_of ?phrase) 4"
    unfolding w by (simp add: py_defs window_defs)
  have first: "\<forall>k<0::nat. \<not> window_ok ?lws (phrase_words_of ?phrase) k" by simp
  have s: "window_span ?lws (length (phrase_words_of ?phrase)) 0 = (1, 3)"
    unfolding w by (simp add: window_defs)
  show ?thesis using leftmost_window [OF c len ok0 first] ok0 ok4 s by simp
qed

text \<open>
  The containment test is needed: on the line \<open>tener, que ver con tener, que ver\<close> with the
  same tokens, both windows match and nothing is returned.
\<close>

theorem leftmost_window_counterexample:
  "window_ok (tokens [(str ''tener'', 1), (str ''que'', 2), (str ''ver'', 3), (str ''con'', 4),
                      (str ''tener'', 5), (str ''que'', 6), (str ''ver'', 7)])
     (phrase_words_of (str ''tener que ver'')) 0 \<and>
   window_ok (tokens [(str ''tener'', 1), (str ''que'', 2), (str ''ver'', 3), (str ''con'', 4),
                      (str ''tener'', 5), (str ''que'', 6), (str ''ver'', 7)])
     (phrase_words_of (str ''tener que ver'')) 4 \<and>
   find_phrase_positions (str ''tener, que ver con tener, que ver'') (str ''tener que ver'')
     (tokens [(str ''tener'', 1), (str ''que'', 2), (str ''ver'', 3), (str ''con'', 4),
              (str ''tener'', 5), (str ''que'', 6), (str ''ver'', 7)]) = Inr None"
proof -
  let ?line = "str ''tener, que ver con tener, que ver''"
  let ?phrase = "str ''tener que ver''"
  let ?lws = "tokens [(str ''tener'', 1), (str ''que'', 2), (str ''ver'', 3), (str ''con'', 4),
                      (str ''tener'', 5), (str ''que'', 6), (str ''ver'', 7)]"
  have ne: "?lws \<noteq> []" by (simp add: tokens_def)
  have w: "phrase_words_of ?phrase = [str ''tener'', str ''que'', str ''ver'']"
    by (simp add: py_defs)
  have len: "2 \<le> length (phrase_words_of ?phrase)" unfolding w by simp
  have c: "\<not> coarse_found ?line ?phrase" by (simp add: py_defs match_defs)
  have ok0: "window_ok ?lws (phrase_words_of ?phrase) 0"
    unfolding w by (simp add: py_defs window_defs)
  have ok4: "window_ok ?lws (phrase_words_of ?phrase) 4"
    unfolding w by (simp add: py_defs window_defs)
  show ?thesis
    using find_phrase_positions_multi [OF ne refl len, of ?line] c ok0 ok4 by simp
qed

section \<open>The empty line and the empty token list\<close>





text \<open>
  The locator itself reads the line only in its containment test, which a single word of
  fewer than 3 characters does not take: for such a word the line makes no difference, and
  it is the guard of the loops that keeps an empty line out.
\<close>

lemma short_word_ignores_line:
  assumes "phrase_words_of phrase_text = [target]" "length target < 3"
  shows "find_phrase_positions line_text phrase_text lws =
     find_phrase_positions other_text phrase_text lws"
  by (simp add: find_phrase_positions_short [OF assms])

section \<open>The two copies\<close>

lemma normalize_text_for_match_eq: "normalize_text_for_match s = normalize_text s"
  by (simp add: normalize_text_for_match_def normalize_text_def)

lemma normalize_for_search_lyrics_eq: "normalize_for_search_lyrics s = normalize_for_search s"
  by (simp add: normalize_for_search_lyrics_def normalize_for_search_def
      normalize_text_for_match_eq)

lemma phrase_exists_in_line_lyrics_eq:
  "phrase_exists_in_line_lyrics line_text phrase_text = phrase_exists_in_line line_text phrase_text"
  by (simp add: phrase_exists_in_line_lyrics_def phrase_exists_in_line_def
      normalize_text_for_match_eq)

lemma norm_normalized_lyrics [simp]:
  "norm_l (normalized_lyrics w) = normalize_for_search (word_text w)"
  "position_l (normalized_lyrics w) = word_position w"
  by (simp_all add: normalized_lyrics_def normalize_for_search_lyrics_eq)

lemma scan_exact_lyrics_eq:
  "scan_exact_lyrics target (map normalized_lyrics lws) = scan_exact target (map normalized lws)"
  by (induction lws) simp_all

lemma scan_contraction_lyrics_eq:
  "scan_contraction_lyrics target (map normalized_lyrics lws) =
     scan_contraction target (map normalized lws)"
  by (induction lws) simp_all

lemma match_words_lyrics_eq:
  "match_words_lyrics (map normalized_lyrics lws) i pws j acc =
     match_words (map normalized lws) i pws j acc"
  by (induction pws arbitrary: j acc) (simp_all add: Let_def)

lemma scan_windows_lyrics_eq:
  "scan_windows_lyrics (map normalized_lyrics lws) pws i = scan_windows (map normalized lws) pws i"
proof (induction "length lws - i" arbitrary: i rule: less_induct)
  case less
  show ?case
  proof (cases "i < length lws")
    case False
    then show ?thesis
      by (simp add: scan_windows.simps [of _ pws i] scan_windows_lyrics.simps [of _ pws i])
  next
    case True
    then have "length lws - Suc i < length lws - i" by simp
    then have ih: "scan_windows_lyrics (map normalized_lyrics lws) pws (Suc i) =
        scan_windows (map normalized lws) pws (Suc i)"
      by (rule less)
    show ?thesis
      unfolding scan_windows.simps [of "map normalized lws" pws i]
        scan_windows_lyrics.simps [of "map normalized_lyrics lws" pws i]
        match_words_lyrics_eq ih
      by simp
  qed
qed

text \<open>
  C9. The locator of \<open>import_lyrics.py\<close> and the locator of
  \<open>backfill_phrase_slang_occurrences.py\<close> return the same result on every line, expression
  and token list.
\<close>

theorem two_copies_agree:
  "find_phrase_positions_lyrics line_text phrase_text line_words =
     find_phrase_positions line_text phrase_text line_words"
  unfolding find_phrase_positions_lyrics_def find_phrase_positions_def Let_def
    normalize_for_search_lyrics_eq phrase_exists_in_line_lyrics_eq scan_exact_lyrics_eq
    scan_contraction_lyrics_eq scan_windows_lyrics_eq
  by (rule refl)

section \<open>Apostrophes in normalized words\<close>

lemma match_words_exact_eq:
  assumes "\<forall>w\<in>set nws. 39 \<notin> set (norm w)" "\<forall>pw\<in>set pws. 39 \<notin> set pw"
  shows "match_words nws i pws j acc = match_words_exact nws i pws j acc"
  using assms(2)
proof (induction pws arbitrary: j acc)
  case Nil
  show ?case by simp
next
  case (Cons pw rest)
  show ?case
  proof (cases "i + j < length nws")
    case False
    then show ?thesis by simp
  next
    case True
    then have "39 \<notin> set (norm (nws ! (i + j)))" using assms(1) by simp
    moreover have "39 \<notin> set pw" using Cons.prems by simp
    moreover have "match_words nws i rest (j + 1) acc' = match_words_exact nws i rest (j + 1) acc'"
      for acc' using Cons.IH Cons.prems by simp
    ultimately show ?thesis using True by (auto simp: Let_def rstrip_apostrophe_id)
  qed
qed

lemma scan_windows_exact_eq:
  assumes "\<forall>w\<in>set nws. 39 \<notin> set (norm w)" "\<forall>pw\<in>set pws. 39 \<notin> set pw"
  shows "scan_windows nws pws i = scan_windows_exact nws pws i"
proof (induction "length nws - i" arbitrary: i rule: less_induct)
  case less
  show ?case
  proof (cases "i < length nws")
    case False
    then show ?thesis
      by (simp add: scan_windows.simps [of _ pws i] scan_windows_exact.simps [of _ pws i])
  next
    case True
    then have "length nws - Suc i < length nws - i" by simp
    then have ih: "scan_windows nws pws (Suc i) = scan_windows_exact nws pws (Suc i)"
      by (rule less)
    show ?thesis
      unfolding scan_windows.simps [of nws pws i] scan_windows_exact.simps [of nws pws i]
        match_words_exact_eq [OF assms] ih
      by (rule refl)
  qed
qed

lemma normalized_plain: "\<forall>w\<in>set (map normalized lws). 39 \<notin> set (norm w)"
  by (simp add: normalize_for_search_no_apostrophe)

text \<open>
  C10. The code at a word written with the right single quotation mark, U+2019:
  \<open>normalize_for_search\<close> calls \<open>replace\<close> with the ASCII apostrophe twice, so that mark stays
  in the normalized word, and the token \<open>pa\<close> followed by U+2019 is no match for the
  expression \<open>pa\<close>.
\<close>

theorem right_single_quotation_mark_kept:
  "normalize_for_search (str ''pa'' @ [8217]) = str ''pa'' @ [8217] \<and>
   find_phrase_positions (str ''voy pa'' @ [8217] @ str '' la casa'') (str ''pa'')
     (tokens [(str ''voy'', 1), (str ''pa'' @ [8217], 2), (str ''la'', 3), (str ''casa'', 4)]) =
   Inr None"
proof -
  have n: "normalize_for_search (str ''pa'' @ [8217]) = str ''pa'' @ [8217]"
    by (simp add: py_defs)
  have w: "phrase_words_of (str ''pa'') = [str ''pa'']" by (simp add: py_defs)
  have l: "length (str ''pa'') < 3" by (simp add: str_def)
  have f: "first_token (str ''pa'')
      (tokens [(str ''voy'', 1), (str ''pa'' @ [8217], 2), (str ''la'', 3), (str ''casa'', 4)]) =
      None"
    by (simp add: py_defs window_defs)
  show ?thesis unfolding find_phrase_positions_short [OF w l] f using n by simp
qed

text \<open>
  X1. No word that \<open>normalize_for_search\<close> returns holds an ASCII apostrophe, and
  \<open>rstrip("'")\<close> leaves every such word as it is.
\<close>

theorem normalized_word_without_apostrophe:
  "39 \<notin> set (normalize_for_search s) \<and>
   rstrip_apostrophe (normalize_for_search s) = normalize_for_search s"
  by (simp add: normalize_for_search_no_apostrophe rstrip_apostrophe_id)

text \<open>
  X2. On every line, expression and token list the locator returns what the locator with
  equality of normalized words as its only test returns: the two tests with \<open>rstrip("'")\<close>
  never decide.
\<close>

theorem locator_is_exact_locator:
  "find_phrase_positions line_text phrase_text line_words =
     find_phrase_positions_exact line_text phrase_text line_words"
proof (cases "line_words = [] \<or> phrase_words_of phrase_text = []")
  case True
  then show ?thesis
    by (auto simp: find_phrase_positions_def find_phrase_positions_exact_def Let_def
        phrase_words_of_def)
next
  case False
  let ?pws = "py_split (normalize_for_search phrase_text)"
  have pne: "?pws \<noteq> []" using False by (simp add: phrase_words_of_def)
  have plain: "\<forall>pw\<in>set ?pws. 39 \<notin> set pw"
    using phrase_word_plain [of _ phrase_text] by (simp add: phrase_words_of_def)
  have "hd ?pws \<in> set ?pws" using pne by simp
  then have h: "39 \<notin> set (hd ?pws)" using plain by blast
  show ?thesis
    unfolding find_phrase_positions_def find_phrase_positions_exact_def Let_def
      scan_contraction_exact [OF h] scan_windows_exact_eq [OF normalized_plain plain]
    by (rule refl)
qed

end
